theory Spec2Isabelle
  imports Main "HOL-Library.Multiset" "HOL-Library.Product_Lexorder" "HOL-Library.List_Lexorder"
begin

section \<open>Values, errors and the rank reference\<close>

text \<open>
  The script \<^verbatim>\<open>cards.py\<close> is Python 2 (it calls \<^verbatim>\<open>xrange\<close>). A card face is a string
  (\<^verbatim>\<open>'Ace'\<close>, \<^verbatim>\<open>'Jack'\<close>, \<^verbatim>\<open>'Queen'\<close>, \<^verbatim>\<open>'King'\<close>) or an integer (2 to 10), and the
  positions that \<^verbatim>\<open>sort_replace\<close> and \<^verbatim>\<open>bubble_sort\<close> write into the list are integers
  as well, so one type of values holds both.
\<close>

datatype pyval = Str string | Num int

datatype error =
    KeyError pyval
  | ValueError pyval
  | IndexError
  | TypeError
  | AssertionError

definition card_faces :: "pyval list" where
  "card_faces =
     [Str ''Ace'', Num 2, Num 3, Num 4, Num 5, Num 6, Num 7, Num 8, Num 9, Num 10,
      Str ''Jack'', Str ''Queen'', Str ''King'']"

section \<open>The store of list objects\<close>

text \<open>
  Python lists are mutable objects reached through references. The store is the list of
  all list objects created so far, a reference is an index into it, and a new object is
  appended at the end. The module-level name \<^verbatim>\<open>deck\<close> refers to object 0 throughout; no
  strategy rebinds it. The list \<^verbatim>\<open>card_faces\<close> is never written to and is kept as a
  constant.
\<close>

type_synonym heap = "pyval list list"

definition deck :: nat where
  "deck = 0"

definition new_list :: "pyval list \<Rightarrow> heap \<Rightarrow> nat \<times> heap" where
  "new_list xs h = (length h, h @ [xs])"

text \<open>\<^verbatim>\<open>ret.extend(xs)\<close> and \<^verbatim>\<open>ret[index] = v\<close> write to the object \<^verbatim>\<open>ret\<close> refers to.\<close>

definition list_extend :: "nat \<Rightarrow> pyval list \<Rightarrow> heap \<Rightarrow> heap" where
  "list_extend ret xs h = h[ret := h ! ret @ xs]"

definition list_setitem :: "nat \<Rightarrow> nat \<Rightarrow> pyval \<Rightarrow> heap \<Rightarrow> heap" where
  "list_setitem ret index v h = h[ret := (h ! ret)[index := v]]"

section \<open>Built-in operations\<close>

text \<open>\<^verbatim>\<open>d[k]\<close> on a dict raises KeyError for a missing key.\<close>

definition getitem :: "(pyval \<rightharpoonup> 'v) \<Rightarrow> pyval \<Rightarrow> error + 'v" where
  "getitem d k = (case d k of None \<Rightarrow> Inl (KeyError k) | Some v \<Rightarrow> Inr v)"

text \<open>\<^verbatim>\<open>xs.index(x)\<close>: the first position holding a value equal to x, ValueError if none.\<close>

fun index_from :: "int \<Rightarrow> pyval list \<Rightarrow> pyval \<Rightarrow> error + int" where
  "index_from n [] x = Inl (ValueError x)"
| "index_from n (y # ys) x = (if y = x then Inr n else index_from (n + 1) ys x)"

definition list_index :: "pyval list \<Rightarrow> pyval \<Rightarrow> error + int" where
  "list_index xs x = index_from 0 xs x"

text \<open>
  \<^verbatim>\<open>xs[v]\<close> on a list: the index must be an integer (TypeError otherwise), a negative
  one counts from the end, and one outside the list raises IndexError.
\<close>

definition list_getitem :: "pyval list \<Rightarrow> pyval \<Rightarrow> error + pyval" where
  "list_getitem xs v =
     (case v of
        Str s \<Rightarrow> Inl TypeError
      | Num i \<Rightarrow>
          if 0 \<le> i \<and> i < int (length xs) then Inr (xs ! nat i)
          else if - int (length xs) \<le> i \<and> i < 0 then Inr (xs ! nat (int (length xs) + i))
          else Inl IndexError)"

text \<open>
  \<^verbatim>\<open>sorted(xs, key=f)\<close> computes the key of every element in list order (the first
  failing call raises), then sorts the elements by their keys, stably, into a new list.
\<close>

fun keys_of :: "('a \<Rightarrow> error + 'k) \<Rightarrow> 'a list \<Rightarrow> error + 'k list" where
  "keys_of key [] = Inr []"
| "keys_of key (x # xs) =
     (case key x of
        Inl e \<Rightarrow> Inl e
      | Inr k \<Rightarrow> (case keys_of key xs of Inl e \<Rightarrow> Inl e | Inr ks \<Rightarrow> Inr (k # ks)))"

definition py_sorted :: "('a \<Rightarrow> error + 'k::linorder) \<Rightarrow> 'a list \<Rightarrow> error + 'a list" where
  "py_sorted key xs =
     (case keys_of key xs of
        Inl e \<Rightarrow> Inl e
      | Inr ks \<Rightarrow> Inr (map snd (sort_key fst (zip ks xs))))"

text \<open>
  \<^verbatim>\<open>sorted(xs)\<close> without a key compares the values themselves. In Python 2 integers
  compare numerically, strings bytewise in dictionary order, and every integer is below
  every string.
\<close>

definition default_key :: "pyval \<Rightarrow> nat \<times> int \<times> nat list" where
  "default_key v = (case v of Num i \<Rightarrow> (0, i, []) | Str s \<Rightarrow> (1, 0, map of_char s))"

section \<open>The seven strategies\<close>

text \<open>
  The loop \<^verbatim>\<open>for value, face in enumerate(card_faces): card_values[face] = value\<close>, which
  \<^verbatim>\<open>sort_with_val_dict\<close>, \<^verbatim>\<open>sort_replace\<close> and \<^verbatim>\<open>bubble_sort\<close> each run on an empty dict.
\<close>

definition card_values :: "pyval \<rightharpoonup> int" where
  "card_values =
     fold (\<lambda>(value, face) d. d(face \<mapsto> int value)) (enumerate 0 card_faces) Map.empty"

definition sort_with_val_dict :: "heap \<Rightarrow> error + nat \<times> heap" where
  "sort_with_val_dict h =
     (case py_sorted (getitem card_values) (h ! deck) of
        Inl e \<Rightarrow> Inl e
      | Inr ret \<Rightarrow> Inr (new_list ret h))"

definition sort_with_val_index :: "heap \<Rightarrow> error + nat \<times> heap" where
  "sort_with_val_index h =
     (case py_sorted (list_index card_faces) (h ! deck) of
        Inl e \<Rightarrow> Inl e
      | Inr ret \<Rightarrow> Inr (new_list ret h))"

text \<open>
  \<^verbatim>\<open>sort_with_dict_counts\<close>: a dict of counts seeded with zero for every face. The body
  of \<^verbatim>\<open>for card in deck\<close> writes to the dict only, here and in the next two strategies,
  so the loop runs over the elements the deck holds when it starts.
\<close>

definition zero_counts :: "pyval \<rightharpoonup> int" where
  "zero_counts = fold (\<lambda>face counts. counts(face \<mapsto> 0)) card_faces Map.empty"

fun tally :: "(pyval \<rightharpoonup> int) \<Rightarrow> pyval list \<Rightarrow> error + (pyval \<rightharpoonup> int)" where
  "tally counts [] = Inr counts"
| "tally counts (c # cards) =
     (case getitem counts c of
        Inl e \<Rightarrow> Inl e
      | Inr n \<Rightarrow> tally (counts(c \<mapsto> n + 1)) cards)"

text \<open>
  \<^verbatim>\<open>for face in card_faces: ret.extend([face] * counts[face])\<close>; a list times a number
  that is not positive is empty.
\<close>

fun extend_counts :: "(pyval \<Rightarrow> error + int) \<Rightarrow> nat \<Rightarrow> pyval list \<Rightarrow> heap \<Rightarrow> error + heap" where
  "extend_counts cnt ret [] h = Inr h"
| "extend_counts cnt ret (face # faces) h =
     (case cnt face of
        Inl e \<Rightarrow> Inl e
      | Inr n \<Rightarrow> extend_counts cnt ret faces (list_extend ret (replicate (nat n) face) h))"

definition sort_with_dict_counts :: "heap \<Rightarrow> error + nat \<times> heap" where
  "sort_with_dict_counts h =
     (let (ret, h1) = new_list [] h in
      case tally zero_counts (h1 ! deck) of
        Inl e \<Rightarrow> Inl e
      | Inr counts \<Rightarrow>
          (case extend_counts (getitem counts) ret card_faces h1 of
             Inl e \<Rightarrow> Inl e
           | Inr h2 \<Rightarrow> Inr (ret, h2)))"

text \<open>
  \<^verbatim>\<open>sort_ordered_dict\<close>: an OrderedDict is an association list in insertion order;
  assigning to a key already present keeps its place. Each bucket is a list created by
  the function and reachable through the dict only, so the dict holds it by value.
\<close>

fun od_setitem :: "pyval \<Rightarrow> 'v \<Rightarrow> (pyval \<times> 'v) list \<Rightarrow> (pyval \<times> 'v) list" where
  "od_setitem k v [] = [(k, v)]"
| "od_setitem k v (p # od) = (if fst p = k then (fst p, v) # od else p # od_setitem k v od)"

definition empty_buckets :: "(pyval \<times> pyval list) list" where
  "empty_buckets = fold (\<lambda>face od. od_setitem face [] od) card_faces []"

fun fill_buckets ::
  "(pyval \<times> pyval list) list \<Rightarrow> pyval list \<Rightarrow> error + (pyval \<times> pyval list) list" where
  "fill_buckets od [] = Inr od"
| "fill_buckets od (c # cards) =
     (case map_of od c of
        None \<Rightarrow> Inl (KeyError c)
      | Some bucket \<Rightarrow> fill_buckets (od_setitem c (bucket @ [c]) od) cards)"

definition sort_ordered_dict :: "heap \<Rightarrow> error + nat \<times> heap" where
  "sort_ordered_dict h =
     (let (ret, h1) = new_list [] h in
      case fill_buckets empty_buckets (h1 ! deck) of
        Inl e \<Rightarrow> Inl e
      | Inr ordered_cards \<Rightarrow> Inr (ret, fold (list_extend ret) (map snd ordered_cards) h1))"

text \<open>
  \<^verbatim>\<open>sort_counter\<close>: reading a missing key of a Counter gives 0 and raises nothing, so
  \<^verbatim>\<open>counter[card] += 1\<close> creates the entry.
\<close>

definition counter_get :: "(pyval \<rightharpoonup> int) \<Rightarrow> pyval \<Rightarrow> int" where
  "counter_get counter k = (case counter k of None \<Rightarrow> 0 | Some n \<Rightarrow> n)"

fun count_up :: "(pyval \<rightharpoonup> int) \<Rightarrow> pyval list \<Rightarrow> (pyval \<rightharpoonup> int)" where
  "count_up counter [] = counter"
| "count_up counter (c # cards) =
     count_up (counter(c \<mapsto> counter_get counter c + 1)) cards"

definition sort_counter :: "heap \<Rightarrow> error + nat \<times> heap" where
  "sort_counter h =
     (let (ret, h1) = new_list [] h;
          counter = count_up Map.empty (h1 ! deck) in
      case extend_counts (\<lambda>face. Inr (counter_get counter face)) ret card_faces h1 of
        Inl e \<Rightarrow> Inl e
      | Inr h2 \<Rightarrow> Inr (ret, h2))"

text \<open>
  \<^verbatim>\<open>for index, x in enumerate(ret): ret[index] = f(x)\<close>: the iterator reads position
  \<^verbatim>\<open>index\<close> of the object at each step and stops at its end; the body writes to the
  same object.
\<close>

function replace_each :: "(pyval \<Rightarrow> error + pyval) \<Rightarrow> nat \<Rightarrow> nat \<Rightarrow> heap \<Rightarrow> error + heap" where
  "replace_each f ret index h =
     (if index < length (h ! ret) then
        (case f (h ! ret ! index) of
           Inl e \<Rightarrow> Inl e
         | Inr v \<Rightarrow> replace_each f ret (index + 1) (list_setitem ret index v h))
      else Inr h)"
  by pat_completeness auto
termination
proof (relation "measure (\<lambda>(f, ret, index, h). length (h ! ret) - index)")
  show "wf (measure (\<lambda>(f, ret, index, h). length (h ! ret) - index))"
    by simp
next
  fix f :: "pyval \<Rightarrow> error + pyval" and ret index :: nat and h :: heap and v :: pyval
  assume less: "index < length (h ! ret)"
  have "length (list_setitem ret index v h ! ret) = length (h ! ret)"
    by (cases "ret < length h") (simp_all add: list_setitem_def list_update_beyond)
  with less
  show "((f, ret, index + 1, list_setitem ret index v h), (f, ret, index, h))
          \<in> measure (\<lambda>(f, ret, index, h). length (h ! ret) - index)"
    by simp
qed

definition to_value :: "pyval \<Rightarrow> error + pyval" where
  "to_value face = (case getitem card_values face of Inl e \<Rightarrow> Inl e | Inr value \<Rightarrow> Inr (Num value))"

definition to_face :: "pyval \<Rightarrow> error + pyval" where
  "to_face value = list_getitem card_faces value"

definition sort_replace :: "heap \<Rightarrow> error + nat \<times> heap" where
  "sort_replace h =
     (let (ret, h1) = new_list (h ! deck) h in
      case replace_each to_value ret 0 h1 of
        Inl e \<Rightarrow> Inl e
      | Inr h2 \<Rightarrow>
          (case py_sorted (\<lambda>v. Inr (default_key v)) (h2 ! ret) of
             Inl e \<Rightarrow> Inl e
           | Inr s \<Rightarrow>
               (let (ret', h3) = new_list s h2 in
                case replace_each to_face ret' 0 h3 of
                  Inl e \<Rightarrow> Inl e
                | Inr h4 \<Rightarrow> Inr (ret', h4))))"

text \<open>\<^verbatim>\<open>bubble_sort\<close>: between the two loops the source has a comment and no statement.\<close>

definition bubble_sort :: "heap \<Rightarrow> error + nat \<times> heap" where
  "bubble_sort h =
     (let (ret, h1) = new_list (h ! deck) h in
      case replace_each to_value ret 0 h1 of
        Inl e \<Rightarrow> Inl e
      | Inr h2 \<Rightarrow>
          (case replace_each to_face ret 0 h2 of
             Inl e \<Rightarrow> Inl e
           | Inr h3 \<Rightarrow> Inr (ret, h3)))"

section \<open>The harness\<close>

definition baseline :: "heap \<Rightarrow> error + nat \<times> heap" where
  "baseline h =
     (case py_sorted (list_index card_faces) (h ! deck) of
        Inl e \<Rightarrow> Inl e
      | Inr b \<Rightarrow> Inr (new_list b h))"

text \<open>\<^verbatim>\<open>assert strategy() == baseline\<close>: lists are equal when their elements are.\<close>

definition assert_baseline :: "(heap \<Rightarrow> error + nat \<times> heap) \<Rightarrow> nat \<Rightarrow> heap \<Rightarrow> error + heap" where
  "assert_baseline strategy b h =
     (case strategy h of
        Inl e \<Rightarrow> Inl e
      | Inr (r, h') \<Rightarrow> if h' ! r = h' ! b then Inr h' else Inl AssertionError)"

text \<open>
  What a call of a strategy evaluates to, as a list of values, and what the deck holds
  once the call has returned.
\<close>

definition result :: "(heap \<Rightarrow> error + nat \<times> heap) \<Rightarrow> heap \<Rightarrow> error + pyval list" where
  "result strategy h = (case strategy h of Inl e \<Rightarrow> Inl e | Inr (r, h') \<Rightarrow> Inr (h' ! r))"

definition deck_after :: "(heap \<Rightarrow> error + nat \<times> heap) \<Rightarrow> heap \<Rightarrow> error + pyval list" where
  "deck_after strategy h = (case strategy h of Inl e \<Rightarrow> Inl e | Inr (r, h') \<Rightarrow> Inr (h' ! deck))"

text \<open>The position of a face in the rank reference; \<open>-1\<close> for any other value.\<close>

definition position :: "pyval \<Rightarrow> int" where
  "position x = (case list_index card_faces x of Inl e \<Rightarrow> - 1 | Inr n \<Rightarrow> n)"

definition non_decreasing :: "pyval list \<Rightarrow> bool" where
  "non_decreasing xs = sorted (map position xs)"

text \<open>The strategies in the order in which the harness calls them.\<close>

definition strategies :: "(heap \<Rightarrow> error + nat \<times> heap) list" where
  "strategies =
     [sort_with_val_dict, sort_with_val_index, sort_with_dict_counts, sort_ordered_dict,
      sort_counter, sort_replace, bubble_sort]"

text \<open>
  The script below the definitions, for a deck given as the initial object 0: it takes the
  baseline, then asserts each strategy against it; a failed assertion ends the run. The
  timing and the printing are left out.
\<close>

fun assert_all :: "(heap \<Rightarrow> error + nat \<times> heap) list \<Rightarrow> nat \<Rightarrow> heap \<Rightarrow> error + heap" where
  "assert_all [] b h = Inr h"
| "assert_all (strategy # rest) b h =
     (case assert_baseline strategy b h of
        Inl e \<Rightarrow> Inl e
      | Inr h' \<Rightarrow> assert_all rest b h')"

definition benchmark :: "pyval list \<Rightarrow> error + heap" where
  "benchmark d =
     (case baseline [d] of
        Inl e \<Rightarrow> Inl e
      | Inr (b, h) \<Rightarrow> assert_all strategies b h)"

declare replace_each.simps [simp del]


section \<open>Positions in the rank reference\<close>

lemma index_from_notin: "x \<notin> set xs \<Longrightarrow> index_from n xs x = Inl (ValueError x)"
  by (induction xs arbitrary: n) auto

lemma index_from_in:
  "x \<in> set xs \<Longrightarrow>
     \<exists>k. index_from n xs x = Inr k \<and> n \<le> k \<and> k < n + int (length xs) \<and> xs ! nat (k - n) = x"
proof (induction xs arbitrary: n)
  case Nil
  then show ?case by simp
next
  case (Cons y ys)
  show ?case
  proof (cases "y = x")
    case True
    then show ?thesis by simp
  next
    case False
    with Cons.prems have "x \<in> set ys" by simp
    from Cons.IH [OF this, of "n + 1"] obtain k where
      k: "index_from (n + 1) ys x = Inr k" "n + 1 \<le> k" "k < n + 1 + int (length ys)"
         "ys ! nat (k - (n + 1)) = x"
      by blast
    from k(2) have "nat (k - n) = Suc (nat (k - (n + 1)))" by simp
    with k False show ?thesis by simp
  qed
qed

lemma position_index: "x \<in> set card_faces \<Longrightarrow> list_index card_faces x = Inr (position x)"
  using index_from_in [of x card_faces 0] by (auto simp: position_def list_index_def)

lemma position_nth:
  assumes "x \<in> set card_faces"
  shows "0 \<le> position x \<and> position x < 13 \<and> card_faces ! nat (position x) = x"
proof -
  have "length card_faces = 13" by (simp add: card_faces_def)
  with index_from_in [OF assms, of 0] position_index [OF assms] show ?thesis
    by (auto simp: list_index_def)
qed

lemma position_inj: "inj_on position (set card_faces)"
proof (rule inj_onI)
  fix x y
  assume "x \<in> set card_faces" "y \<in> set card_faces" "position x = position y"
  with position_nth [of x] position_nth [of y] show "x = y" by metis
qed

lemma position_card_faces: "map position card_faces = [0, 1, 2, 3, 4, 5, 6, 7, 8, 9, 10, 11, 12]"
  by (simp add: card_faces_def position_def list_index_def)

lemma distinct_card_faces: "distinct card_faces"
  by (simp add: card_faces_def)

lemma fold_enumerate:
  "distinct xs \<Longrightarrow>
     fold (\<lambda>(value, face) d. d(face \<mapsto> int value)) (enumerate n xs) m x =
       (case index_from (int n) xs x of Inl e \<Rightarrow> m x | Inr k \<Rightarrow> Some k)"
proof (induction xs arbitrary: n m)
  case Nil
  then show ?case by simp
next
  case (Cons y ys)
  from Cons.prems have d: "distinct ys" and y: "y \<notin> set ys" by simp_all
  let ?F = "\<lambda>(value, face) d. d(face \<mapsto> int value)"
  have "fold ?F (enumerate n (y # ys)) m x = fold ?F (enumerate (Suc n) ys) (m(y \<mapsto> int n)) x"
    by simp
  also have "\<dots> = (case index_from (int (Suc n)) ys x of
                      Inl e \<Rightarrow> (m(y \<mapsto> int n)) x | Inr k \<Rightarrow> Some k)"
    by (rule Cons.IH [OF d])
  also have "\<dots> = (case index_from (int n) (y # ys) x of Inl e \<Rightarrow> m x | Inr k \<Rightarrow> Some k)"
  proof (cases "y = x")
    case True
    with y have "index_from (int (Suc n)) ys x = Inl (ValueError x)"
      by (simp add: index_from_notin)
    with True show ?thesis by simp
  next
    case False
    then show ?thesis by (simp add: add.commute split: sum.splits)
  qed
  finally show ?case .
qed

lemma card_values_eq:
  "card_values x = (if x \<in> set card_faces then Some (position x) else None)"
proof (cases "x \<in> set card_faces")
  case True
  with position_index [OF True] show ?thesis
    by (simp add: card_values_def fold_enumerate [OF distinct_card_faces] list_index_def)
next
  case False
  then show ?thesis
    by (simp add: card_values_def fold_enumerate [OF distinct_card_faces] index_from_notin)
qed

lemma to_value_face: "x \<in> set card_faces \<Longrightarrow> to_value x = Inr (Num (position x))"
  by (simp add: to_value_def getitem_def card_values_eq)

lemma to_value_other: "x \<notin> set card_faces \<Longrightarrow> to_value x = Inl (KeyError x)"
  by (simp add: to_value_def getitem_def card_values_eq)

lemma to_face_position: "x \<in> set card_faces \<Longrightarrow> to_face (Num (position x)) = Inr x"
  using position_nth [of x] by (simp add: to_face_def list_getitem_def card_faces_def)

section \<open>Sorting and the in-place loops\<close>

lemma keys_of_total: "\<forall>x\<in>set xs. key x = Inr (g x) \<Longrightarrow> keys_of key xs = Inr (map g xs)"
  by (induction xs) simp_all

lemma keys_of_fails:
  "\<exists>x\<in>set xs. \<exists>e. key x = Inl e \<Longrightarrow>
     \<exists>x\<in>set xs. \<exists>e. key x = Inl e \<and> keys_of key xs = Inl e"
proof (induction xs)
  case Nil
  then show ?case by simp
next
  case (Cons y ys)
  show ?case
  proof (cases "key y")
    case (Inl e)
    then show ?thesis by auto
  next
    case (Inr k)
    with Cons.prems have "\<exists>x\<in>set ys. \<exists>e. key x = Inl e" by auto
    from Cons.IH [OF this] Inr show ?thesis by auto
  qed
qed

lemma insort_decorated:
  "insort_key fst (g x, x) (map (\<lambda>y. (g y, y)) ys) = map (\<lambda>y. (g y, y)) (insort_key g x ys)"
  by (induction ys) simp_all

lemma sort_decorated:
  "map snd (sort_key fst (zip (map g xs) xs)) = sort_key g xs"
proof -
  have z: "zip (map g xs) xs = map (\<lambda>y. (g y, y)) xs"
    by (induction xs) simp_all
  have "sort_key fst (map (\<lambda>y. (g y, y)) xs) = map (\<lambda>y. (g y, y)) (sort_key g xs)"
    by (induction xs) (simp_all add: insort_decorated)
  with z show ?thesis by (simp add: comp_def)
qed

lemma py_sorted_total:
  "\<forall>x\<in>set xs. key x = Inr (g x) \<Longrightarrow> py_sorted key xs = Inr (sort_key g xs)"
  using keys_of_total [of xs key g] by (simp add: py_sorted_def sort_decorated)

lemma py_sorted_fails:
  "\<exists>x\<in>set xs. \<exists>e. key x = Inl e \<Longrightarrow>
     \<exists>x\<in>set xs. \<exists>e. key x = Inl e \<and> py_sorted key xs = Inl e"
  using keys_of_fails [of xs key] by (auto simp: py_sorted_def)

text \<open>Sorted by position and the same multiset: there is one such list.\<close>

lemma sorted_faces_unique:
  assumes "set d \<subseteq> set card_faces" and "mset ys = mset d" and "non_decreasing ys"
  shows "ys = sort_key position d"
proof -
  from assms(1) have "inj_on position (set d)"
    by (rule inj_on_subset [OF position_inj])
  with assms(2,3) have "sort_key position d = ys"
    by (intro sort_key_inj_key_eq) (simp_all add: non_decreasing_def)
  then show ?thesis by simp
qed

lemma replace_each_total:
  assumes "ret < length h" and "\<forall>x\<in>set (drop i (h ! ret)). f x = Inr (g x)"
  shows "replace_each f ret i h = Inr (h[ret := take i (h ! ret) @ map g (drop i (h ! ret))])"
  using assms
proof (induction "length (h ! ret) - i" arbitrary: i h)
  case 0
  then have "length (h ! ret) \<le> i" by simp
  then show ?case by (subst replace_each.simps) simp
next
  case (Suc n)
  let ?xs = "h ! ret"
  let ?h' = "list_setitem ret i (g (?xs ! i)) h"
  from Suc.hyps(2) have i: "i < length ?xs" by simp
  then have dr: "drop i ?xs = ?xs ! i # drop (Suc i) ?xs"
    by (simp add: Cons_nth_drop_Suc)
  with Suc.prems(2) have fi: "f (?xs ! i) = Inr (g (?xs ! i))" by simp
  from Suc.prems(1) have h': "?h' ! ret = ?xs[i := g (?xs ! i)]" "length ?h' = length h"
    by (simp_all add: list_setitem_def)
  have "replace_each f ret (i + 1) ?h' =
          Inr (?h'[ret := take (i + 1) (?h' ! ret) @ map g (drop (i + 1) (?h' ! ret))])"
  proof (rule Suc.hyps(1))
    from Suc.hyps(2) h' show "n = length (?h' ! ret) - (i + 1)" by simp
    from Suc.prems(1) h' show "ret < length ?h'" by simp
    from Suc.prems(2) dr h' show "\<forall>x\<in>set (drop (i + 1) (?h' ! ret)). f x = Inr (g x)" by simp
  qed
  moreover have "take (i + 1) (?h' ! ret) = take i ?xs @ [g (?xs ! i)]"
    using i h' by (simp add: take_Suc_conv_app_nth)
  moreover have "drop (i + 1) (?h' ! ret) = drop (Suc i) ?xs"
    using h' by simp
  ultimately have "replace_each f ret (i + 1) ?h' =
          Inr (h[ret := take i ?xs @ map g (drop i ?xs)])"
    using dr by (simp add: list_setitem_def)
  with i fi show ?case by (subst replace_each.simps) simp
qed

lemma replace_each_fails:
  assumes "ret < length h" and "\<exists>x\<in>set (drop i (h ! ret)). \<exists>e. f x = Inl e"
  shows "\<exists>x\<in>set (drop i (h ! ret)). \<exists>e. f x = Inl e \<and> replace_each f ret i h = Inl e"
  using assms
proof (induction "length (h ! ret) - i" arbitrary: i h)
  case 0
  then show ?case by simp
next
  case (Suc n)
  let ?xs = "h ! ret"
  from Suc.hyps(2) have i: "i < length ?xs" by simp
  then have dr: "drop i ?xs = ?xs ! i # drop (Suc i) ?xs"
    by (simp add: Cons_nth_drop_Suc)
  show ?case
  proof (cases "f (?xs ! i)")
    case (Inl e)
    with i have "replace_each f ret i h = Inl e" by (subst replace_each.simps) simp
    with Inl dr show ?thesis by (metis list.set_intros(1))
  next
    case (Inr v)
    let ?h' = "list_setitem ret i v h"
    from Suc.prems(1) have h': "?h' ! ret = ?xs[i := v]" "length ?h' = length h"
      by (simp_all add: list_setitem_def)
    have "\<exists>x\<in>set (drop (i + 1) (?h' ! ret)). \<exists>e. f x = Inl e \<and> replace_each f ret (i + 1) ?h' = Inl e"
    proof (rule Suc.hyps(1))
      from Suc.hyps(2) h' show "n = length (?h' ! ret) - (i + 1)" by simp
      from Suc.prems(1) h' show "ret < length ?h'" by simp
      from Suc.prems(2) dr h' Inr show "\<exists>x\<in>set (drop (i + 1) (?h' ! ret)). \<exists>e. f x = Inl e" by auto
    qed
    moreover have "drop (i + 1) (?h' ! ret) = drop (Suc i) ?xs"
      using h' by simp
    moreover from i Inr have "replace_each f ret i h = replace_each f ret (i + 1) ?h'"
      by (subst replace_each.simps) simp
    ultimately show ?thesis using dr by auto
  qed
qed

section \<open>Counting and buckets\<close>

lemma extend_counts_total:
  assumes "ret < length h" and "\<forall>f\<in>set fs. cnt f = Inr (n f)"
  shows "extend_counts cnt ret fs h =
           Inr (h[ret := h ! ret @ concat (map (\<lambda>f. replicate (nat (n f)) f) fs)])"
  using assms
proof (induction fs arbitrary: h)
  case Nil
  then show ?case by simp
next
  case (Cons f fs)
  let ?h' = "list_extend ret (replicate (nat (n f)) f) h"
  from Cons.prems(1) have h': "ret < length ?h'" "?h' ! ret = h ! ret @ replicate (nat (n f)) f"
    by (simp_all add: list_extend_def)
  from Cons.prems(2) have "\<forall>f\<in>set fs. cnt f = Inr (n f)" by simp
  from Cons.IH [OF h'(1) this] h'(2) Cons.prems(2) show ?case
    by (simp add: list_extend_def)
qed

lemma fold_list_extend:
  "ret < length h \<Longrightarrow> fold (list_extend ret) xss h = h[ret := h ! ret @ concat xss]"
proof (induction xss arbitrary: h)
  case Nil
  then show ?case by simp
next
  case (Cons xs xss)
  let ?h' = "list_extend ret xs h"
  from Cons.prems have h': "ret < length ?h'" "?h' ! ret = h ! ret @ xs"
    by (simp_all add: list_extend_def)
  from Cons.IH [OF h'(1)] h'(2) show ?case
    by (simp add: list_extend_def)
qed

lemma zero_counts_eq: "zero_counts x = (if x \<in> set card_faces then Some 0 else None)"
proof -
  have "fold (\<lambda>face counts. counts(face \<mapsto> 0)) fs m x = (if x \<in> set fs then Some (0::int) else m x)"
    for fs and m :: "pyval \<rightharpoonup> int"
    by (induction fs arbitrary: m) simp_all
  then show ?thesis by (simp add: zero_counts_def)
qed

lemma tally_total:
  "set d \<subseteq> dom counts \<Longrightarrow>
     \<exists>counts'. tally counts d = Inr counts' \<and>
       (\<forall>x. counts' x = map_option (\<lambda>n. n + int (count_list d x)) (counts x))"
proof (induction d arbitrary: counts)
  case Nil
  then show ?case by (simp add: option.map_ident)
next
  case (Cons c cards)
  from Cons.prems obtain n where n: "counts c = Some n" by auto
  let ?counts = "counts(c \<mapsto> n + 1)"
  from Cons.prems have "set cards \<subseteq> dom ?counts" by auto
  from Cons.IH [OF this] obtain counts' where
    c: "tally ?counts cards = Inr counts'"
       "\<And>x. counts' x = map_option (\<lambda>n. n + int (count_list cards x)) (?counts x)"
    by blast
  have "counts' x = map_option (\<lambda>n. n + int (count_list (c # cards) x)) (counts x)" for x
    using c(2) [of x] n by (cases "counts x") auto
  with c(1) n show ?case by (simp add: getitem_def)
qed

lemma tally_fails:
  "\<not> set d \<subseteq> dom counts \<Longrightarrow>
     \<exists>x\<in>set d. x \<notin> dom counts \<and> tally counts d = Inl (KeyError x)"
proof (induction d arbitrary: counts)
  case Nil
  then show ?case by simp
next
  case (Cons c cards)
  show ?case
  proof (cases "counts c")
    case None
    then show ?thesis by (auto simp: getitem_def)
  next
    case (Some n)
    let ?counts = "counts(c \<mapsto> n + 1)"
    from Some have dom: "dom ?counts = dom counts" by auto
    from Some have step: "tally counts (c # cards) = tally ?counts cards"
      by (simp add: getitem_def)
    from Cons.prems Some dom have "\<not> set cards \<subseteq> dom ?counts" by auto
    from Cons.IH [OF this] obtain x where
      "x \<in> set cards" "x \<notin> dom ?counts" "tally ?counts cards = Inl (KeyError x)"
      by blast
    with dom step have "x \<in> set (c # cards) \<and> x \<notin> dom counts \<and> tally counts (c # cards) = Inl (KeyError x)"
      by (simp only: list.set insert_iff simp_thms)
    then show ?thesis by blast
  qed
qed

lemma count_up_eq:
  "counter_get (count_up counter d) x = counter_get counter x + int (count_list d x)"
  by (induction d arbitrary: counter) (simp_all add: counter_get_def)

lemma empty_buckets_eq: "empty_buckets = map (\<lambda>f. (f, [])) card_faces"
  by (simp add: empty_buckets_def card_faces_def)

lemma keys_map_buckets: "map fst (map (\<lambda>(k, b). (k, g k b)) od) = map fst od"
  by (induction od) auto

lemma od_setitem_append:
  "distinct (map fst od) \<Longrightarrow> map_of od c = Some bucket \<Longrightarrow>
     od_setitem c (bucket @ [c]) od = map (\<lambda>(k, b). (k, if k = c then b @ [c] else b)) od"
proof (induction od)
  case Nil
  then show ?case by simp
next
  case (Cons p od)
  obtain k b where p: "p = (k, b)" by (cases p)
  show ?case
  proof (cases "k = c")
    case True
    with Cons.prems p have "c \<notin> fst ` set od" by auto
    then have "map (\<lambda>(k, b). (k, if k = c then b @ [c] else b)) od = od"
      by (induction od) auto
    with True p Cons.prems show ?thesis by simp
  next
    case False
    with Cons p show ?thesis by simp
  qed
qed

lemma fill_buckets_total:
  "distinct (map fst od) \<Longrightarrow> set d \<subseteq> fst ` set od \<Longrightarrow>
     fill_buckets od d = Inr (map (\<lambda>(k, b). (k, b @ filter (\<lambda>x. x = k) d)) od)"
proof (induction d arbitrary: od)
  case Nil
  then show ?case by simp
next
  case (Cons c cards)
  from Cons.prems(2) have "c \<in> fst ` set od" by simp
  then obtain bucket where b: "map_of od c = Some bucket"
    by (metis map_of_eq_None_iff not_None_eq)
  let ?od = "map (\<lambda>(k, b). (k, if k = c then b @ [c] else b)) od"
  have fst: "map fst ?od = map fst od" by (rule keys_map_buckets)
  have "fill_buckets ?od cards = Inr (map (\<lambda>(k, b). (k, b @ filter (\<lambda>x. x = k) cards)) ?od)"
  proof (rule Cons.IH)
    from Cons.prems(1) show "distinct (map fst ?od)" by (simp only: fst)
    from fst have "fst ` set ?od = fst ` set od" by (metis list.set_map)
    with Cons.prems(2) show "set cards \<subseteq> fst ` set ?od" by simp
  qed
  moreover have "map (\<lambda>(k, b). (k, b @ filter (\<lambda>x. x = k) cards)) ?od
                   = map (\<lambda>(k, b). (k, b @ filter (\<lambda>x. x = k) (c # cards))) od"
    by (induction od) auto
  ultimately show ?case using b od_setitem_append [OF Cons.prems(1) b] by simp
qed

lemma fill_buckets_fails:
  "distinct (map fst od) \<Longrightarrow> \<not> set d \<subseteq> fst ` set od \<Longrightarrow>
     \<exists>x\<in>set d. x \<notin> fst ` set od \<and> fill_buckets od d = Inl (KeyError x)"
proof (induction d arbitrary: od)
  case Nil
  then show ?case by simp
next
  case (Cons c cards)
  show ?case
  proof (cases "map_of od c")
    case None
    then have "c \<notin> fst ` set od" by (simp add: map_of_eq_None_iff)
    with None show ?thesis by simp
  next
    case (Some bucket)
    let ?od = "map (\<lambda>(k, b). (k, if k = c then b @ [c] else b)) od"
    have fst: "map fst ?od = map fst od" by (rule keys_map_buckets)
    then have img: "fst ` set ?od = fst ` set od" by (metis list.set_map)
    from Some have "c \<in> fst ` set od" by (metis map_of_eq_None_iff option.distinct(1))
    with Cons.prems(2) img have sub: "\<not> set cards \<subseteq> fst ` set ?od" by auto
    from Cons.prems(1) have "distinct (map fst ?od)" by (simp only: fst)
    from Cons.IH [OF this sub] obtain x where
      "x \<in> set cards" "x \<notin> fst ` set ?od" "fill_buckets ?od cards = Inl (KeyError x)"
      by blast
    with img Some od_setitem_append [OF Cons.prems(1) Some]
    have "x \<in> set (c # cards) \<and> x \<notin> fst ` set od \<and> fill_buckets od (c # cards) = Inl (KeyError x)"
      by simp
    then show ?thesis by blast
  qed
qed

lemma filter_eq_replicate: "filter (\<lambda>x. x = f) d = replicate (count_list d f) f"
  by (induction d) simp_all

text \<open>The output of the counting strategies.\<close>

lemma count_list_replicate: "count_list (replicate n f) x = (if f = x then n else 0)"
  by (induction n) auto

lemma count_emitted:
  "distinct fs \<Longrightarrow>
     count_list (concat (map (\<lambda>f. replicate (count_list d f) f) fs)) x =
       (if x \<in> set fs then count_list d x else 0)"
  by (induction fs) (auto simp: count_list_replicate)

lemma count_list_filter: "count_list (filter P d) x = (if P x then count_list d x else 0)"
  by (induction d) auto

lemma mset_emitted:
  assumes "distinct fs"
  shows "mset (concat (map (\<lambda>f. replicate (count_list d f) f) fs)) = mset (filter (\<lambda>x. x \<in> set fs) d)"
proof (rule multiset_eqI)
  fix x
  show "count (mset (concat (map (\<lambda>f. replicate (count_list d f) f) fs))) x
          = count (mset (filter (\<lambda>x. x \<in> set fs) d)) x"
    unfolding count_mset by (simp only: count_emitted [OF assms] count_list_filter)
qed

lemma sorted_emitted:
  "sorted (map position fs) \<Longrightarrow>
     sorted (map position (concat (map (\<lambda>f. replicate (n f) f) fs)))"
  by (induction fs) (auto simp: sorted_append)

lemma emitted_sorted_faces:
  "concat (map (\<lambda>f. replicate (count_list d f) f) card_faces)
     = sort_key position (filter (\<lambda>x. x \<in> set card_faces) d)"
proof (rule sorted_faces_unique)
  show "set (filter (\<lambda>x. x \<in> set card_faces) d) \<subseteq> set card_faces" by auto
  show "mset (concat (map (\<lambda>f. replicate (count_list d f) f) card_faces))
          = mset (filter (\<lambda>x. x \<in> set card_faces) d)"
    by (rule mset_emitted [OF distinct_card_faces])
  have "sorted (map position card_faces)" by (simp add: position_card_faces)
  then show "non_decreasing (concat (map (\<lambda>f. replicate (count_list d f) f) card_faces))"
    unfolding non_decreasing_def by (rule sorted_emitted)
qed

lemma filter_faces: "set d \<subseteq> set card_faces \<Longrightarrow> filter (\<lambda>x. x \<in> set card_faces) d = d"
  by (induction d) auto

section \<open>What the strategies return on a deck of faces\<close>

lemma getitem_card_values:
  "getitem card_values x = (if x \<in> set card_faces then Inr (position x) else Inl (KeyError x))"
  by (simp add: getitem_def card_values_eq)

lemma list_index_card_faces:
  "list_index card_faces x = (if x \<in> set card_faces then Inr (position x) else Inl (ValueError x))"
  by (simp add: position_index) (simp add: list_index_def index_from_notin)

lemma sort_with_val_dict_faces:
  assumes "set d \<subseteq> set card_faces"
  shows "sort_with_val_dict (d # hs) = Inr (Suc (length hs), d # hs @ [sort_key position d])"
proof -
  from assms have "\<forall>x\<in>set d. getitem card_values x = Inr (position x)"
    by (auto simp: getitem_card_values)
  then have "py_sorted (getitem card_values) d = Inr (sort_key position d)"
    by (rule py_sorted_total)
  then show ?thesis by (simp add: sort_with_val_dict_def deck_def new_list_def)
qed

lemma sort_with_val_index_faces:
  assumes "set d \<subseteq> set card_faces"
  shows "sort_with_val_index (d # hs) = Inr (Suc (length hs), d # hs @ [sort_key position d])"
proof -
  from assms have "\<forall>x\<in>set d. list_index card_faces x = Inr (position x)"
    by (auto simp: list_index_card_faces)
  then have "py_sorted (list_index card_faces) d = Inr (sort_key position d)"
    by (rule py_sorted_total)
  then show ?thesis by (simp add: sort_with_val_index_def deck_def new_list_def)
qed

lemma sort_with_dict_counts_faces:
  assumes "set d \<subseteq> set card_faces"
  shows "sort_with_dict_counts (d # hs) = Inr (Suc (length hs), d # hs @ [sort_key position d])"
proof -
  let ?h1 = "(d # hs) @ [[]]"
  have dom: "dom zero_counts = set card_faces"
    by (auto simp: zero_counts_eq dom_def)
  with assms have "set d \<subseteq> dom zero_counts" by simp
  from tally_total [OF this] obtain counts where
    t: "tally zero_counts d = Inr counts"
    and c: "\<And>x. counts x = map_option (\<lambda>n. n + int (count_list d x)) (zero_counts x)"
    by blast
  have "\<forall>f\<in>set card_faces. getitem counts f = Inr (int (count_list d f))"
    by (simp add: getitem_def c zero_counts_eq)
  moreover have "length (d # hs) < length ?h1" by simp
  ultimately have "extend_counts (getitem counts) (length (d # hs)) card_faces ?h1 =
      Inr (?h1[length (d # hs) := ?h1 ! length (d # hs)
                 @ concat (map (\<lambda>f. replicate (nat (int (count_list d f))) f) card_faces)])"
    by (rule extend_counts_total [rotated])
  then have "extend_counts (getitem counts) (length (d # hs)) card_faces ?h1 =
      Inr (d # hs @ [sort_key position d])"
    using assms by (simp add: emitted_sorted_faces filter_faces nth_append)
  with t show ?thesis
    by (simp add: sort_with_dict_counts_def new_list_def deck_def)
qed

lemma sort_counter_any:
  "sort_counter (d # hs) =
     Inr (Suc (length hs), d # hs @ [sort_key position (filter (\<lambda>x. x \<in> set card_faces) d)])"
proof -
  let ?h1 = "(d # hs) @ [[]]"
  let ?counter = "count_up Map.empty d"
  have "\<forall>f\<in>set card_faces. Inr (counter_get ?counter f) = (Inr (int (count_list d f)) :: error + int)"
    by (simp add: count_up_eq) (simp add: counter_get_def)
  moreover have "length (d # hs) < length ?h1" by simp
  ultimately have "extend_counts (\<lambda>face. Inr (counter_get ?counter face)) (length (d # hs)) card_faces ?h1 =
      Inr (?h1[length (d # hs) := ?h1 ! length (d # hs)
                 @ concat (map (\<lambda>f. replicate (nat (int (count_list d f))) f) card_faces)])"
    by (rule extend_counts_total [rotated])
  then have "extend_counts (\<lambda>face. Inr (counter_get ?counter face)) (length (d # hs)) card_faces ?h1 =
      Inr (d # hs @ [sort_key position (filter (\<lambda>x. x \<in> set card_faces) d)])"
    by (simp add: emitted_sorted_faces nth_append)
  then show ?thesis
    by (simp add: sort_counter_def new_list_def deck_def)
qed

lemma sort_ordered_dict_faces:
  assumes "set d \<subseteq> set card_faces"
  shows "sort_ordered_dict (d # hs) = Inr (Suc (length hs), d # hs @ [sort_key position d])"
proof -
  let ?h1 = "(d # hs) @ [[]]"
  let ?od = "map (\<lambda>(k, b). (k, b @ filter (\<lambda>x. x = k) d)) empty_buckets"
  have keys: "map fst empty_buckets = card_faces"
    by (simp add: empty_buckets_eq comp_def)
  then have "fst ` set empty_buckets = set card_faces" by (metis list.set_map)
  with assms keys distinct_card_faces
  have f: "fill_buckets empty_buckets d = Inr ?od"
    by (intro fill_buckets_total) simp_all
  have "map snd ?od = map (\<lambda>f. replicate (count_list d f) f) card_faces"
    by (simp add: empty_buckets_eq comp_def filter_eq_replicate)
  moreover have "fold (list_extend (length (d # hs))) (map snd ?od) ?h1
        = ?h1[length (d # hs) := ?h1 ! length (d # hs) @ concat (map snd ?od)]"
    by (rule fold_list_extend) simp
  ultimately have "fold (list_extend (length (d # hs))) (map snd ?od) ?h1
        = d # hs @ [sort_key position d]"
    using assms by (simp add: emitted_sorted_faces filter_faces nth_append)
  with f show ?thesis
    by (simp add: sort_ordered_dict_def new_list_def deck_def)
qed

lemma insort_key_cong_le:
  assumes "\<And>a b. (k1 a \<le> k1 b) = (k2 a \<le> k2 b)"
  shows "insort_key k1 x ys = insort_key k2 x ys"
proof (induction ys)
  case Nil
  show ?case by simp
next
  case (Cons y ys)
  from assms [of x y] Cons show ?case by (simp only: insort_key.simps)
qed

lemma sort_key_cong_le:
  assumes "\<And>a b. (k1 a \<le> k1 b) = (k2 a \<le> k2 b)"
  shows "sort_key k1 xs = sort_key k2 xs"
proof (induction xs)
  case Nil
  show ?case by simp
next
  case (Cons x xs)
  from insort_key_cong_le [of k1 k2 x "sort_key k2 xs", OF assms] Cons show ?case
    by (simp only: sort_key_simps)
qed

lemma insort_key_map: "insort_key k (f x) (map f ys) = map f (insort_key (\<lambda>y. k (f y)) x ys)"
  by (induction ys) simp_all

lemma sort_key_map: "sort_key k (map f xs) = map f (sort_key (\<lambda>y. k (f y)) xs)"
  by (induction xs) (simp_all add: insort_key_map)

lemma sorted_values:
  "py_sorted (\<lambda>v. Inr (default_key v)) (map (\<lambda>x. Num (position x)) d)
     = Inr (map (\<lambda>x. Num (position x)) (sort_key position d))"
proof -
  have "sort_key default_key (map (\<lambda>x. Num (position x)) d)
          = map (\<lambda>x. Num (position x)) (sort_key (\<lambda>y. default_key (Num (position y))) d)"
    by (rule sort_key_map)
  also have "sort_key (\<lambda>y. default_key (Num (position y))) d = sort_key position d"
    by (rule sort_key_cong_le) (auto simp: default_key_def)
  finally show ?thesis
    using py_sorted_total [of "map (\<lambda>x. Num (position x)) d" "\<lambda>v. Inr (default_key v)" default_key]
    by simp
qed

lemma to_values_faces:
  assumes "set xs \<subseteq> set card_faces" and "ret < length h" and "h ! ret = xs"
  shows "replace_each to_value ret 0 h = Inr (h[ret := map (\<lambda>x. Num (position x)) xs])"
proof -
  from assms(1,3) have "\<forall>x\<in>set (drop 0 (h ! ret)). to_value x = Inr (Num (position x))"
    by (auto simp: to_value_face)
  from replace_each_total [OF assms(2) this] assms(3) show ?thesis by simp
qed

lemma to_faces_values:
  assumes "set xs \<subseteq> set card_faces" and "ret < length h"
    and "h ! ret = map (\<lambda>x. Num (position x)) xs"
  shows "replace_each to_face ret 0 h = Inr (h[ret := xs])"
proof -
  let ?face = "\<lambda>v. case to_face v of Inl e \<Rightarrow> v | Inr x \<Rightarrow> x"
  from assms(1,3) have "\<forall>v\<in>set (drop 0 (h ! ret)). to_face v = Inr (?face v)"
    by (auto simp: to_face_position)
  from replace_each_total [OF assms(2) this] assms(3)
  have "replace_each to_face ret 0 h = Inr (h[ret := map (\<lambda>x. ?face (Num (position x))) xs])"
    by (simp add: comp_def)
  moreover from assms(1) have "map (\<lambda>x. ?face (Num (position x))) xs = xs"
    by (induction xs) (simp_all add: to_face_position)
  ultimately show ?thesis by simp
qed

lemma bubble_sort_faces:
  assumes "set d \<subseteq> set card_faces"
  shows "bubble_sort (d # hs) = Inr (Suc (length hs), d # hs @ [d])"
proof -
  let ?ret = "Suc (length hs)"
  let ?h1 = "d # hs @ [d]"
  let ?h2 = "d # hs @ [map (\<lambda>x. Num (position x)) d]"
  have "replace_each to_value ?ret 0 ?h1 = Inr (?h1[?ret := map (\<lambda>x. Num (position x)) d])"
    using assms by (rule to_values_faces) (simp_all add: nth_append)
  then have 1: "replace_each to_value ?ret 0 ?h1 = Inr ?h2" by simp
  have "replace_each to_face ?ret 0 ?h2 = Inr (?h2[?ret := d])"
    using assms by (rule to_faces_values) (simp_all add: nth_append)
  then have 2: "replace_each to_face ?ret 0 ?h2 = Inr ?h1" by simp
  from 1 2 show ?thesis
    by (simp add: bubble_sort_def new_list_def deck_def)
qed

lemma sort_replace_faces:
  assumes "set d \<subseteq> set card_faces"
  shows "sort_replace (d # hs) =
           Inr (Suc (Suc (length hs)),
                d # hs @ [map (\<lambda>x. Num (position x)) d, sort_key position d])"
proof -
  let ?ret = "Suc (length hs)"
  let ?h1 = "d # hs @ [d]"
  let ?vs = "map (\<lambda>x. Num (position x)) d"
  let ?h2 = "d # hs @ [?vs]"
  let ?s = "sort_key position d"
  let ?h3 = "?h2 @ [map (\<lambda>x. Num (position x)) ?s]"
  have "replace_each to_value ?ret 0 ?h1 = Inr (?h1[?ret := ?vs])"
    using assms by (rule to_values_faces) (simp_all add: nth_append)
  then have 1: "replace_each to_value ?ret 0 ?h1 = Inr ?h2" by simp
  have 2: "?h2 ! ?ret = ?vs" by (simp add: nth_append)
  have "replace_each to_face (length ?h2) 0 ?h3 = Inr (?h3[length ?h2 := ?s])"
  proof (rule to_faces_values)
    from assms show "set ?s \<subseteq> set card_faces" by simp
    show "length ?h2 < length ?h3" by simp
    show "?h3 ! length ?h2 = map (\<lambda>x. Num (position x)) ?s" by (simp only: nth_append_length)
  qed
  then have 3: "replace_each to_face (length ?h2) 0 ?h3 = Inr (d # hs @ [?vs, ?s])"
    by (simp add: list_update_append)
  from 1 2 3 sorted_values [of d] show ?thesis
    by (simp add: sort_replace_def new_list_def deck_def)
qed

lemma result_bubble_sort: "set d \<subseteq> set card_faces \<Longrightarrow> result bubble_sort (d # hs) = Inr d"
  by (simp add: result_def bubble_sort_faces nth_append)

lemma result_sort_replace:
  "set d \<subseteq> set card_faces \<Longrightarrow> result sort_replace (d # hs) = Inr (sort_key position d)"
  by (simp add: result_def sort_replace_faces nth_append)

lemma result_sort_with_val_dict:
  "set d \<subseteq> set card_faces \<Longrightarrow> result sort_with_val_dict (d # hs) = Inr (sort_key position d)"
  by (simp add: result_def sort_with_val_dict_faces nth_append)

lemma result_sort_with_val_index:
  "set d \<subseteq> set card_faces \<Longrightarrow> result sort_with_val_index (d # hs) = Inr (sort_key position d)"
  by (simp add: result_def sort_with_val_index_faces nth_append)

lemma result_sort_with_dict_counts:
  "set d \<subseteq> set card_faces \<Longrightarrow> result sort_with_dict_counts (d # hs) = Inr (sort_key position d)"
  by (simp add: result_def sort_with_dict_counts_faces nth_append)

lemma result_sort_ordered_dict:
  "set d \<subseteq> set card_faces \<Longrightarrow> result sort_ordered_dict (d # hs) = Inr (sort_key position d)"
  by (simp add: result_def sort_ordered_dict_faces nth_append)

lemma result_sort_counter:
  "result sort_counter (d # hs) = Inr (sort_key position (filter (\<lambda>x. x \<in> set card_faces) d))"
  by (simp add: result_def sort_counter_any nth_append)

lemmas result_faces =
  result_sort_with_val_dict result_sort_with_val_index result_sort_with_dict_counts
  result_sort_ordered_dict result_sort_replace result_bubble_sort

section \<open>The specified properties\<close>

text \<open>
  C4. On every deck of card faces \<^verbatim>\<open>bubble_sort\<close> returns a list equal, element by
  element, to the deck: mapping a face to its value and the value back to a face gives
  the face again, and nothing between the two loops reorders the list.
\<close>

theorem bubble_sort_returns_deck:
  assumes "set d \<subseteq> set card_faces"
  shows "result bubble_sort (d # hs) = Inr d
         \<and> (\<forall>face\<in>set card_faces. \<exists>value. to_value face = Inr value \<and> to_face value = Inr face)"
  using assms by (auto simp: result_bubble_sort to_value_face to_face_position)

theorem bubble_sort_returns_deck_witness:
  "set [Str ''King'', Str ''Ace'', Num 2] \<subseteq> set card_faces
   \<and> result bubble_sort [[Str ''King'', Str ''Ace'', Num 2]] = Inr [Str ''King'', Str ''Ace'', Num 2]
   \<and> to_value (Str ''King'') = Inr (Num 12) \<and> to_face (Num 12) = Inr (Str ''King'')"
proof -
  have faces: "set [Str ''King'', Str ''Ace'', Num 2] \<subseteq> set card_faces"
    by (simp add: card_faces_def)
  have "to_value (Str ''King'') = Inr (Num 12)"
    by (simp add: to_value_def getitem_def card_values_def card_faces_def)
  moreover have "to_face (Num 12) = Inr (Str ''King'')"
    by (simp add: to_face_def list_getitem_def card_faces_def)
  ultimately show ?thesis
    using faces bubble_sort_returns_deck [OF faces, of "[]"] by simp
qed

lemma result_strategies:
  assumes "set d \<subseteq> set card_faces" and "strategy \<in> set strategies"
  shows "result strategy (d # hs) = Inr (sort_key position d) \<or> result strategy (d # hs) = Inr d"
  using assms by (auto simp: strategies_def result_faces result_sort_counter filter_faces)

text \<open>
  C2. On every deck of card faces, every strategy returns a permutation of the deck: the
  same multiset of elements and the same length.
\<close>

theorem strategies_permute:
  assumes "set d \<subseteq> set card_faces" and "strategy \<in> set strategies"
  shows "\<exists>out. result strategy (d # hs) = Inr out \<and> mset out = mset d \<and> length out = length d"
  using result_strategies [OF assms, of hs] by auto

theorem strategies_permute_witness:
  "set [Str ''King'', Str ''Ace'', Num 2, Str ''King'', Str ''Jack''] \<subseteq> set card_faces
   \<and> sort_counter \<in> set strategies
   \<and> (\<exists>out. result sort_counter [[Str ''King'', Str ''Ace'', Num 2, Str ''King'', Str ''Jack'']] = Inr out
        \<and> mset out = mset [Str ''King'', Str ''Ace'', Num 2, Str ''King'', Str ''Jack'']
        \<and> length out = length [Str ''King'', Str ''Ace'', Num 2, Str ''King'', Str ''Jack''])"
proof -
  have faces: "set [Str ''King'', Str ''Ace'', Num 2, Str ''King'', Str ''Jack''] \<subseteq> set card_faces"
    by (simp add: card_faces_def)
  have mem: "sort_counter \<in> set strategies"
    by (simp add: strategies_def)
  from faces mem strategies_permute [OF faces mem, of "[]"] show ?thesis
    by (intro conjI)
qed

text \<open>
  C7. Idempotence: a deck of card faces that is already in rank order is returned
  unchanged by every strategy.
\<close>

theorem sorted_deck_fixed:
  assumes "set d \<subseteq> set card_faces" and "non_decreasing d" and "strategy \<in> set strategies"
  shows "result strategy (d # hs) = Inr d"
proof -
  from assms(2) have "sort_key position d = d"
    by (simp add: non_decreasing_def sort_key_id_if_sorted)
  with result_strategies [OF assms(1,3), of hs] show ?thesis by auto
qed

theorem sorted_deck_fixed_witness:
  "set [Str ''Ace'', Num 2, Str ''Jack'', Str ''King'', Str ''King''] \<subseteq> set card_faces
   \<and> non_decreasing [Str ''Ace'', Num 2, Str ''Jack'', Str ''King'', Str ''King'']
   \<and> sort_with_val_index \<in> set strategies
   \<and> result sort_with_val_index [[Str ''Ace'', Num 2, Str ''Jack'', Str ''King'', Str ''King'']]
        = Inr [Str ''Ace'', Num 2, Str ''Jack'', Str ''King'', Str ''King'']"
proof -
  have faces: "set [Str ''Ace'', Num 2, Str ''Jack'', Str ''King'', Str ''King''] \<subseteq> set card_faces"
    by (simp add: card_faces_def)
  have sorted: "non_decreasing [Str ''Ace'', Num 2, Str ''Jack'', Str ''King'', Str ''King'']"
    by (simp add: non_decreasing_def position_def list_index_def card_faces_def)
  have mem: "sort_with_val_index \<in> set strategies"
    by (simp add: strategies_def)
  from faces sorted mem sorted_deck_fixed [OF faces sorted mem, of "[]"] show ?thesis
    by (intro conjI)
qed

lemma non_decreasing_replicate: "non_decreasing (replicate n x)"
  by (simp add: non_decreasing_def sorted_replicate map_replicate)

text \<open>
  C8. Boundary decks, for every strategy: the empty deck gives the empty list, a deck of
  one face gives that face, and a deck of n copies of one face gives n copies of it.
\<close>

theorem boundary_decks:
  assumes "strategy \<in> set strategies"
  shows "result strategy ([] # hs) = Inr []
         \<and> (x \<in> set card_faces \<longrightarrow>
              result strategy ([x] # hs) = Inr [x]
              \<and> result strategy (replicate n x # hs) = Inr (replicate n x))"
proof -
  have fixed: "result strategy (replicate k y # hs) = Inr (replicate k y)"
    if "k = 0 \<or> y \<in> set card_faces" for k y
  proof (rule sorted_deck_fixed [OF _ _ assms])
    from that show "set (replicate k y) \<subseteq> set card_faces" by auto
    show "non_decreasing (replicate k y)" by (rule non_decreasing_replicate)
  qed
  from fixed [of 0 x] fixed [of 1 x] fixed [of n x] show ?thesis by simp
qed

theorem boundary_decks_witness:
  "sort_replace \<in> set strategies \<and> Num 5 \<in> set card_faces
   \<and> result sort_replace [[]] = Inr []
   \<and> result sort_replace [[Num 5]] = Inr [Num 5]
   \<and> result sort_replace [replicate 3 (Num 5)] = Inr (replicate 3 (Num 5))"
proof -
  have mem: "sort_replace \<in> set strategies"
    by (simp add: strategies_def)
  have face: "Num 5 \<in> set card_faces"
    by (simp add: card_faces_def)
  from mem face boundary_decks [OF mem, of "[]" "Num 5" 3] show ?thesis
    by blast
qed

lemma strategies_extend_heap:
  assumes "set d \<subseteq> set card_faces" and "strategy \<in> set strategies"
  shows "\<exists>new. new \<noteq> [] \<and> strategy (d # hs) = Inr (length hs + length new, d # hs @ new)"
proof -
  have "\<exists>new. new \<noteq> [] \<and> Suc (length hs) = length hs + length new \<and> d # hs @ [xs] = d # hs @ new" for xs :: "pyval list"
    by (rule exI [of _ "[xs]"]) simp
  moreover
  have "\<exists>new. new \<noteq> [] \<and> Suc (Suc (length hs)) = length hs + length new \<and> d # hs @ [xs, ys] = d # hs @ new"
    for xs ys :: "pyval list"
    by (rule exI [of _ "[xs, ys]"]) simp
  ultimately show ?thesis
    using assms
    by (auto simp: strategies_def sort_with_val_dict_faces sort_with_val_index_faces
          sort_with_dict_counts_faces sort_ordered_dict_faces sort_counter_any
          sort_replace_faces bubble_sort_faces)
qed

text \<open>
  C9. No strategy changes the deck: on every deck of card faces the deck holds the same
  elements after the call as before it. The list a strategy returns, the one that
  \<^verbatim>\<open>sort_replace\<close> and \<^verbatim>\<open>bubble_sort\<close> write to included, is an object created by the
  call, and every object that existed before the call is left as it was.
\<close>

theorem deck_not_mutated:
  assumes "set d \<subseteq> set card_faces" and "strategy \<in> set strategies"
  shows "deck_after strategy (d # hs) = Inr d
         \<and> (\<exists>r h'. strategy (d # hs) = Inr (r, h') \<and> length hs < r
                \<and> take (Suc (length hs)) h' = d # hs)"
proof -
  from strategies_extend_heap [OF assms, of hs] obtain new where
    new: "new \<noteq> []" "strategy (d # hs) = Inr (length hs + length new, d # hs @ new)"
    by blast
  from new(1) have "length hs < length hs + length new" by simp
  with new(2) show ?thesis by (simp add: deck_after_def deck_def)
qed

theorem deck_not_mutated_witness:
  "set [Str ''King'', Str ''Ace'', Num 2] \<subseteq> set card_faces
   \<and> sort_replace \<in> set strategies
   \<and> deck_after sort_replace [[Str ''King'', Str ''Ace'', Num 2]] = Inr [Str ''King'', Str ''Ace'', Num 2]
   \<and> (\<exists>r h'. sort_replace [[Str ''King'', Str ''Ace'', Num 2]] = Inr (r, h') \<and> length [] < r
          \<and> take (Suc (length [])) h' = [[Str ''King'', Str ''Ace'', Num 2]])"
proof -
  have faces: "set [Str ''King'', Str ''Ace'', Num 2] \<subseteq> set card_faces"
    by (simp add: card_faces_def)
  have mem: "sort_replace \<in> set strategies"
    by (simp add: strategies_def)
  from faces mem deck_not_mutated [OF faces mem, of "[]"] show ?thesis
    by (intro conjI) simp_all
qed

text \<open>
  C3. On a deck of card faces the strategies agree element by element, provided the
  seventh is a genuine sort: with any strategy that returns the deck's elements in rank
  order in the place of \<^verbatim>\<open>bubble_sort\<close>, any two of the seven return equal lists.
\<close>

theorem strategies_agree:
  assumes "set d \<subseteq> set card_faces"
    and "result genuine_sort (d # hs) = Inr out" and "mset out = mset d" and "non_decreasing out"
    and "s \<in> set (butlast strategies @ [genuine_sort])"
    and "t \<in> set (butlast strategies @ [genuine_sort])"
  shows "result s (d # hs) = result t (d # hs)"
proof -
  from assms(1,3,4) have "out = sort_key position d" by (rule sorted_faces_unique)
  with assms(2) have g: "result genuine_sort (d # hs) = Inr (sort_key position d)" by simp
  have "result u (d # hs) = Inr (sort_key position d)"
    if "u \<in> set (butlast strategies @ [genuine_sort])" for u
    using that assms(1) g
    by (auto simp: strategies_def result_faces result_sort_counter filter_faces)
  from this [OF assms(5)] this [OF assms(6)] show ?thesis by simp
qed

theorem strategies_agree_witness:
  "set [Str ''Ace'', Num 2, Str ''King''] \<subseteq> set card_faces
   \<and> result bubble_sort [[Str ''Ace'', Num 2, Str ''King'']] = Inr [Str ''Ace'', Num 2, Str ''King'']
   \<and> mset [Str ''Ace'', Num 2, Str ''King''] = mset [Str ''Ace'', Num 2, Str ''King'']
   \<and> non_decreasing [Str ''Ace'', Num 2, Str ''King'']
   \<and> sort_with_dict_counts \<in> set (butlast strategies @ [bubble_sort])
   \<and> bubble_sort \<in> set (butlast strategies @ [bubble_sort])
   \<and> result sort_with_dict_counts [[Str ''Ace'', Num 2, Str ''King'']]
        = result bubble_sort [[Str ''Ace'', Num 2, Str ''King'']]"
proof -
  let ?d = "[Str ''Ace'', Num 2, Str ''King'']"
  have faces: "set ?d \<subseteq> set card_faces"
    by (simp add: card_faces_def)
  have bubble: "result bubble_sort [?d] = Inr ?d"
    by (rule result_bubble_sort [OF faces])
  have perm: "mset ?d = mset ?d" ..
  have sorted: "non_decreasing ?d"
    by (simp add: non_decreasing_def position_def list_index_def card_faces_def)
  have s: "sort_with_dict_counts \<in> set (butlast strategies @ [bubble_sort])"
    by (simp add: strategies_def)
  have t: "bubble_sort \<in> set (butlast strategies @ [bubble_sort])"
    by simp
  from faces bubble perm sorted s t strategies_agree [OF faces bubble perm sorted s t]
  show ?thesis by (intro conjI)
qed

lemma sort_with_val_dict_unknown:
  assumes "\<not> set d \<subseteq> set card_faces"
  shows "\<exists>x\<in>set d. x \<notin> set card_faces \<and> result sort_with_val_dict (d # hs) = Inl (KeyError x)"
proof -
  from assms have "\<exists>x\<in>set d. \<exists>e. getitem card_values x = Inl e"
    by (auto simp: getitem_card_values)
  from py_sorted_fails [OF this] obtain x e where
    x: "x \<in> set d" "getitem card_values x = Inl e" "py_sorted (getitem card_values) d = Inl e"
    by blast
  from x(2) have "x \<notin> set card_faces \<and> e = KeyError x"
    by (auto simp: getitem_card_values split: if_splits)
  with x(1,3) show ?thesis
    by (auto simp: result_def sort_with_val_dict_def deck_def)
qed

lemma sort_with_val_index_unknown:
  assumes "\<not> set d \<subseteq> set card_faces"
  shows "\<exists>x\<in>set d. x \<notin> set card_faces \<and> result sort_with_val_index (d # hs) = Inl (ValueError x)"
proof -
  from assms have "\<exists>x\<in>set d. \<exists>e. list_index card_faces x = Inl e"
    by (auto simp: list_index_card_faces)
  from py_sorted_fails [OF this] obtain x e where
    x: "x \<in> set d" "list_index card_faces x = Inl e" "py_sorted (list_index card_faces) d = Inl e"
    by blast
  from x(2) have "x \<notin> set card_faces \<and> e = ValueError x"
    by (auto simp: list_index_card_faces split: if_splits)
  with x(1,3) show ?thesis
    by (auto simp: result_def sort_with_val_index_def deck_def)
qed

lemma sort_with_dict_counts_unknown:
  assumes "\<not> set d \<subseteq> set card_faces"
  shows "\<exists>x\<in>set d. x \<notin> set card_faces \<and> result sort_with_dict_counts (d # hs) = Inl (KeyError x)"
proof -
  have dom: "dom zero_counts = set card_faces"
    by (auto simp: zero_counts_eq dom_def)
  with assms have "\<not> set d \<subseteq> dom zero_counts" by simp
  from tally_fails [OF this] dom obtain x where
    "x \<in> set d" "x \<notin> set card_faces" "tally zero_counts d = Inl (KeyError x)"
    by auto
  then show ?thesis
    by (auto simp: result_def sort_with_dict_counts_def new_list_def deck_def)
qed

lemma sort_ordered_dict_unknown:
  assumes "\<not> set d \<subseteq> set card_faces"
  shows "\<exists>x\<in>set d. x \<notin> set card_faces \<and> result sort_ordered_dict (d # hs) = Inl (KeyError x)"
proof -
  have keys: "map fst empty_buckets = card_faces"
    by (simp add: empty_buckets_eq comp_def)
  then have img: "fst ` set empty_buckets = set card_faces" by (metis list.set_map)
  from keys distinct_card_faces have "distinct (map fst empty_buckets)" by simp
  moreover from assms img have "\<not> set d \<subseteq> fst ` set empty_buckets" by simp
  ultimately obtain x where
    "x \<in> set d" "x \<notin> fst ` set empty_buckets" "fill_buckets empty_buckets d = Inl (KeyError x)"
    using fill_buckets_fails by blast
  with img show ?thesis
    by (auto simp: result_def sort_ordered_dict_def new_list_def deck_def)
qed

lemma to_values_unknown:
  assumes "\<not> set d \<subseteq> set card_faces"
  shows "\<exists>x\<in>set d. x \<notin> set card_faces
           \<and> replace_each to_value (Suc (length hs)) 0 (d # hs @ [d]) = Inl (KeyError x)"
proof -
  let ?ret = "Suc (length hs)"
  let ?h1 = "d # hs @ [d]"
  have ret: "?ret < length ?h1" and obj: "?h1 ! ?ret = d"
    by (simp_all add: nth_append)
  from assms obtain y where "y \<in> set d" "y \<notin> set card_faces" by auto
  with obj have "\<exists>x\<in>set (drop 0 (?h1 ! ?ret)). \<exists>e. to_value x = Inl e"
    by (auto simp: to_value_other intro!: bexI [of _ y])
  from replace_each_fails [OF ret this] obj obtain x e where
    x: "x \<in> set d" "to_value x = Inl e" "replace_each to_value ?ret 0 ?h1 = Inl e"
    by auto
  from x(2) have "x \<notin> set card_faces \<and> e = KeyError x"
    by (cases "x \<in> set card_faces") (simp_all add: to_value_face to_value_other)
  with x(1,3) show ?thesis by auto
qed

lemma sort_replace_unknown:
  assumes "\<not> set d \<subseteq> set card_faces"
  shows "\<exists>x\<in>set d. x \<notin> set card_faces \<and> result sort_replace (d # hs) = Inl (KeyError x)"
  using to_values_unknown [OF assms, of hs]
  by (auto simp: result_def sort_replace_def new_list_def deck_def)

lemma bubble_sort_unknown:
  assumes "\<not> set d \<subseteq> set card_faces"
  shows "\<exists>x\<in>set d. x \<notin> set card_faces \<and> result bubble_sort (d # hs) = Inl (KeyError x)"
  using to_values_unknown [OF assms, of hs]
  by (auto simp: result_def bubble_sort_def new_list_def deck_def)

text \<open>
  C6, as stated: a deck holding a label that is not a card face makes every strategy
  raise a lookup error. \<^verbatim>\<open>sort_counter\<close> raises nothing on the deck \<^verbatim>\<open>['Joker', 3]\<close>: it
  returns \<^verbatim>\<open>[3]\<close>.
\<close>

theorem sort_counter_drops_joker:
  "result sort_counter [[Str ''Joker'', Num 3]] = Inr [Num 3]"
  by code_simp

text \<open>
  C6, amended. On a deck holding a label that is not a card face, the six strategies
  other than \<^verbatim>\<open>sort_counter\<close> raise a lookup error naming such a label (ValueError from
  \<^verbatim>\<open>sort_with_val_index\<close>, KeyError from the others); \<^verbatim>\<open>sort_counter\<close> raises nothing and
  returns the card faces of the deck in rank order, leaving the other labels out.
\<close>

theorem unknown_label:
  assumes "\<not> set d \<subseteq> set card_faces"
  shows "(\<exists>x\<in>set d. x \<notin> set card_faces \<and> result sort_with_val_dict (d # hs) = Inl (KeyError x))
       \<and> (\<exists>x\<in>set d. x \<notin> set card_faces \<and> result sort_with_val_index (d # hs) = Inl (ValueError x))
       \<and> (\<exists>x\<in>set d. x \<notin> set card_faces \<and> result sort_with_dict_counts (d # hs) = Inl (KeyError x))
       \<and> (\<exists>x\<in>set d. x \<notin> set card_faces \<and> result sort_ordered_dict (d # hs) = Inl (KeyError x))
       \<and> (\<exists>x\<in>set d. x \<notin> set card_faces \<and> result sort_replace (d # hs) = Inl (KeyError x))
       \<and> (\<exists>x\<in>set d. x \<notin> set card_faces \<and> result bubble_sort (d # hs) = Inl (KeyError x))
       \<and> result sort_counter (d # hs)
            = Inr (sort_key position (filter (\<lambda>x. x \<in> set card_faces) d))"
  using sort_with_val_dict_unknown [OF assms, of hs] sort_with_val_index_unknown [OF assms, of hs]
    sort_with_dict_counts_unknown [OF assms, of hs] sort_ordered_dict_unknown [OF assms, of hs]
    sort_replace_unknown [OF assms, of hs] bubble_sort_unknown [OF assms, of hs]
    result_sort_counter [of d hs]
  by (intro conjI)

theorem unknown_label_witness:
  "\<not> set [Str ''Joker'', Num 3] \<subseteq> set card_faces
   \<and> result sort_with_val_dict [[Str ''Joker'', Num 3]] = Inl (KeyError (Str ''Joker''))
   \<and> result sort_with_val_index [[Str ''Joker'', Num 3]] = Inl (ValueError (Str ''Joker''))
   \<and> result sort_with_dict_counts [[Str ''Joker'', Num 3]] = Inl (KeyError (Str ''Joker''))
   \<and> result sort_ordered_dict [[Str ''Joker'', Num 3]] = Inl (KeyError (Str ''Joker''))
   \<and> result sort_replace [[Str ''Joker'', Num 3]] = Inl (KeyError (Str ''Joker''))
   \<and> result bubble_sort [[Str ''Joker'', Num 3]] = Inl (KeyError (Str ''Joker''))
   \<and> result sort_counter [[Str ''Joker'', Num 3]]
        = Inr (sort_key position (filter (\<lambda>x. x \<in> set card_faces) [Str ''Joker'', Num 3]))"
proof -
  have other: "\<not> set [Str ''Joker'', Num 3] \<subseteq> set card_faces"
    by (simp add: card_faces_def)
  have face: "Num 3 \<in> set card_faces"
    by (simp add: card_faces_def)
  from other face unknown_label [OF other, of "[]"] show ?thesis
    by auto
qed

lemma baseline_faces:
  "set d \<subseteq> set card_faces \<Longrightarrow>
     baseline (d # hs) = Inr (Suc (length hs), d # hs @ [sort_key position d])"
  using sort_with_val_index_faces [of d hs]
  by (simp add: baseline_def sort_with_val_index_def)

lemma assert_baseline_passes:
  assumes "set d \<subseteq> set card_faces" and "strategy \<in> set (butlast strategies)"
    and "b \<le> length hs" and "(d # hs) ! b = sort_key position d"
  shows "\<exists>new. assert_baseline strategy b (d # hs) = Inr (d # hs @ new)"
proof -
  from assms(2) have mem: "strategy \<in> set strategies"
    by (rule in_set_butlastD)
  from strategies_extend_heap [OF assms(1) mem, of hs] obtain new where
    new: "strategy (d # hs) = Inr (length hs + length new, d # hs @ new)"
    by blast
  from assms(1,2) have "result strategy (d # hs) = Inr (sort_key position d)"
    by (auto simp: strategies_def result_faces result_sort_counter filter_faces)
  with new have r: "(d # hs @ new) ! (length hs + length new) = sort_key position d"
    by (simp add: result_def)
  from assms(3) have "(d # hs @ new) ! b = (d # hs) ! b"
    by (cases b) (simp_all add: nth_append)
  with r assms(4) new show ?thesis
    by (simp add: assert_baseline_def)
qed

text \<open>
  C10. On every deck of card faces \<^verbatim>\<open>sort_with_val_index\<close> returns a list equal to the
  baseline, which the harness computes with the same expression on the same deck, so the
  assertion \<^verbatim>\<open>assert sort_with_val_index() == baseline\<close> passes when the harness reaches it,
  after the baseline and the assertion on \<^verbatim>\<open>sort_with_val_dict\<close>.
\<close>

theorem val_index_equals_baseline:
  assumes "set d \<subseteq> set card_faces"
  shows "result sort_with_val_index (d # hs) = result baseline (d # hs)
         \<and> (\<exists>b h1 h2 h3. baseline [d] = Inr (b, h1)
                \<and> assert_baseline sort_with_val_dict b h1 = Inr h2
                \<and> assert_baseline sort_with_val_index b h2 = Inr h3)"
proof -
  let ?b = "sort_key position d"
  have same: "result sort_with_val_index (d # hs) = result baseline (d # hs)"
    by (simp add: result_def baseline_def sort_with_val_index_def)
  from assms have base: "baseline [d] = Inr (1, [d, ?b])"
    using baseline_faces [of d "[]"] by simp
  have "\<exists>new. assert_baseline sort_with_val_dict 1 (d # [?b]) = Inr (d # [?b] @ new)"
    using assms by (rule assert_baseline_passes) (simp_all add: strategies_def)
  then obtain new where
    first: "assert_baseline sort_with_val_dict 1 [d, ?b] = Inr (d # (?b # new))"
    by auto
  have "\<exists>new'. assert_baseline sort_with_val_index 1 (d # (?b # new)) = Inr (d # (?b # new) @ new')"
    using assms by (rule assert_baseline_passes) (simp_all add: strategies_def)
  with base first same show ?thesis by blast
qed

theorem val_index_equals_baseline_witness:
  "set [Str ''King'', Str ''Ace'', Num 2] \<subseteq> set card_faces
   \<and> result sort_with_val_index [[Str ''King'', Str ''Ace'', Num 2]]
        = result baseline [[Str ''King'', Str ''Ace'', Num 2]]
   \<and> (\<exists>b h1 h2 h3. baseline [[Str ''King'', Str ''Ace'', Num 2]] = Inr (b, h1)
          \<and> assert_baseline sort_with_val_dict b h1 = Inr h2
          \<and> assert_baseline sort_with_val_index b h2 = Inr h3)"
proof -
  have faces: "set [Str ''King'', Str ''Ace'', Num 2] \<subseteq> set card_faces"
    by (simp add: card_faces_def)
  from faces val_index_equals_baseline [OF faces, of "[]"] show ?thesis
    by (intro conjI) simp_all
qed

lemma six_strategies_sorted:
  assumes "set d \<subseteq> set card_faces" and "strategy \<in> set (butlast strategies)"
  shows "\<exists>out. result strategy (d # hs) = Inr out \<and> non_decreasing out"
proof -
  from assms have "result strategy (d # hs) = Inr (sort_key position d)"
    by (auto simp: strategies_def result_faces result_sort_counter filter_faces)
  then show ?thesis by (simp add: non_decreasing_def)
qed

text \<open>
  C1. Every strategy returns a list in rank order. \<^verbatim>\<open>bubble_sort\<close> does not: on the deck
  \<^verbatim>\<open>['King', 'Ace']\<close> it returns \<^verbatim>\<open>['King', 'Ace']\<close>, which is not in rank order, and the
  script's own assertion \<^verbatim>\<open>assert bubble_sort() == baseline\<close> fails.
\<close>

theorem bubble_sort_not_sorted:
  "result bubble_sort [[Str ''King'', Str ''Ace'']] = Inr [Str ''King'', Str ''Ace'']
   \<and> \<not> non_decreasing [Str ''King'', Str ''Ace'']
   \<and> benchmark [Str ''King'', Str ''Ace''] = Inl AssertionError"
proof (intro conjI)
  show "result bubble_sort [[Str ''King'', Str ''Ace'']] = Inr [Str ''King'', Str ''Ace'']"
    by code_simp
  show "\<not> non_decreasing [Str ''King'', Str ''Ace'']"
    by (simp add: non_decreasing_def position_def list_index_def card_faces_def)
  show "benchmark [Str ''King'', Str ''Ace''] = Inl AssertionError"
    by code_simp
qed

text \<open>
  C5. On the deck \<^verbatim>\<open>['King', 'Ace', 2, 'King', 'Jack']\<close> every strategy returns
  \<^verbatim>\<open>['Ace', 2, 'Jack', 'King', 'King']\<close>. Six of them do; \<^verbatim>\<open>bubble_sort\<close> returns the deck
  in the order it was given.
\<close>

theorem scenario_five_cards:
  "result sort_with_val_dict [[Str ''King'', Str ''Ace'', Num 2, Str ''King'', Str ''Jack'']]
     = Inr [Str ''Ace'', Num 2, Str ''Jack'', Str ''King'', Str ''King'']
   \<and> result sort_with_val_index [[Str ''King'', Str ''Ace'', Num 2, Str ''King'', Str ''Jack'']]
     = Inr [Str ''Ace'', Num 2, Str ''Jack'', Str ''King'', Str ''King'']
   \<and> result sort_with_dict_counts [[Str ''King'', Str ''Ace'', Num 2, Str ''King'', Str ''Jack'']]
     = Inr [Str ''Ace'', Num 2, Str ''Jack'', Str ''King'', Str ''King'']
   \<and> result sort_ordered_dict [[Str ''King'', Str ''Ace'', Num 2, Str ''King'', Str ''Jack'']]
     = Inr [Str ''Ace'', Num 2, Str ''Jack'', Str ''King'', Str ''King'']
   \<and> result sort_counter [[Str ''King'', Str ''Ace'', Num 2, Str ''King'', Str ''Jack'']]
     = Inr [Str ''Ace'', Num 2, Str ''Jack'', Str ''King'', Str ''King'']
   \<and> result sort_replace [[Str ''King'', Str ''Ace'', Num 2, Str ''King'', Str ''Jack'']]
     = Inr [Str ''Ace'', Num 2, Str ''Jack'', Str ''King'', Str ''King'']
   \<and> result bubble_sort [[Str ''King'', Str ''Ace'', Num 2, Str ''King'', Str ''Jack'']]
     = Inr [Str ''King'', Str ''Ace'', Num 2, Str ''King'', Str ''Jack'']"
proof (intro conjI)
  show "result sort_with_val_dict [[Str ''King'', Str ''Ace'', Num 2, Str ''King'', Str ''Jack'']]
     = Inr [Str ''Ace'', Num 2, Str ''Jack'', Str ''King'', Str ''King'']"
    by code_simp
  show "result sort_with_val_index [[Str ''King'', Str ''Ace'', Num 2, Str ''King'', Str ''Jack'']]
     = Inr [Str ''Ace'', Num 2, Str ''Jack'', Str ''King'', Str ''King'']"
    by code_simp
  show "result sort_with_dict_counts [[Str ''King'', Str ''Ace'', Num 2, Str ''King'', Str ''Jack'']]
     = Inr [Str ''Ace'', Num 2, Str ''Jack'', Str ''King'', Str ''King'']"
    by code_simp
  show "result sort_ordered_dict [[Str ''King'', Str ''Ace'', Num 2, Str ''King'', Str ''Jack'']]
     = Inr [Str ''Ace'', Num 2, Str ''Jack'', Str ''King'', Str ''King'']"
    by code_simp
  show "result sort_counter [[Str ''King'', Str ''Ace'', Num 2, Str ''King'', Str ''Jack'']]
     = Inr [Str ''Ace'', Num 2, Str ''Jack'', Str ''King'', Str ''King'']"
    by code_simp
  show "result sort_replace [[Str ''King'', Str ''Ace'', Num 2, Str ''King'', Str ''Jack'']]
     = Inr [Str ''Ace'', Num 2, Str ''Jack'', Str ''King'', Str ''King'']"
    by code_simp
  show "result bubble_sort [[Str ''King'', Str ''Ace'', Num 2, Str ''King'', Str ''Jack'']]
     = Inr [Str ''King'', Str ''Ace'', Num 2, Str ''King'', Str ''Jack'']"
    by code_simp
qed

end
